theory Spec2Isabelle
  imports Main "HOL-Library.Char_ord" "HOL-Library.List_Lexorder" "HOL-Library.Option_ord"
    "HOL-Library.Sublist" "HOL-Library.AList" "HOL-Library.Multiset"
begin

section \<open>Python strings and exceptions\<close>

text \<open>
  A Python \<open>str\<close> is modelled as a \<open>string\<close> whose characters are the code points
  below 256 (Latin-1), so that \<open>length\<close> is Python's \<open>len\<close> and the lexicographic
  order of \<open>HOL-Library.List_Lexorder\<close> over \<open>HOL-Library.Char_ord\<close> is Python's
  string order. The exceptions the modelled code can raise are values.
\<close>

datatype py_error =
    ValueError string
  | RuntimeError string
  | AttributeError
  | TypeError
  | EngineFault string

text \<open>\<open>str.isspace\<close> on one character, for code points below 256.\<close>

definition isspace :: "char \<Rightarrow> bool" where
  "isspace c =
     (let n = (of_char c :: nat)
      in (9 \<le> n \<and> n \<le> 13) \<or> (28 \<le> n \<and> n \<le> 32) \<or> n = 133 \<or> n = 160)"

text \<open>\<open>str.strip()\<close>: leading and trailing whitespace removed.\<close>

definition strip :: "string \<Rightarrow> string" where
  "strip s = rev (dropWhile isspace (rev (dropWhile isspace s)))"

text \<open>\<open>str.lower()\<close>, for code points below 256.\<close>

definition lower_char :: "char \<Rightarrow> char" where
  "lower_char c =
     (let n = (of_char c :: nat)
      in if (65 \<le> n \<and> n \<le> 90) \<or> (192 \<le> n \<and> n \<le> 222 \<and> n \<noteq> 215)
         then char_of (n + 32) else c)"

definition lower :: "string \<Rightarrow> string" where
  "lower s = map lower_char s"

text \<open>Python's \<open>sub in s\<close> on strings.\<close>

fun contains :: "string \<Rightarrow> string \<Rightarrow> bool" where
  "contains sub [] = (sub = [])"
| "contains sub (c # cs) = (prefix sub (c # cs) \<or> contains sub cs)"

section \<open>The sandbox resolver\<close>

text \<open>
  \<open>_resolve_sandbox_mode(requested)\<close> of \<open>scripts/evaluate_humaneval.py\<close>. The host probe
  \<open>shutil.which("firejail")\<close> is the parameter \<open>firejail_found\<close>. The result is the
  raised exception or the pair of the resolved mode and the advisory messages.
\<close>

definition invalid_mode_message :: "string \<Rightarrow> string" where
  "invalid_mode_message requested =
     ''Invalid sandbox mode '' @ [CHR 0x27] @ requested @ [CHR 0x27] @
     ''. Choose '' @ [CHR 0x27] @ ''firejail'' @ [CHR 0x27] @
     '', '' @ [CHR 0x27] @ ''none'' @ [CHR 0x27] @
     '', or '' @ [CHR 0x27] @ ''auto'' @ [CHR 0x27] @ ''.''"

definition firejail_missing_message :: string where
  "firejail_missing_message =
     ''Firejail requested but not available. Install Firejail or use --sandbox-mode none.''"

definition resolve_sandbox_mode ::
  "bool \<Rightarrow> string option \<Rightarrow> py_error + (string \<times> string list)" where
  "resolve_sandbox_mode firejail_found requested =
     (let normalized = (case requested of
                          None \<Rightarrow> None
                        | Some r \<Rightarrow> if r = [] then None else Some (lower r));
          normalized = (if normalized = Some ''auto'' then None else normalized)
      in if normalized \<noteq> None \<and> normalized \<noteq> Some ''firejail'' \<and> normalized \<noteq> Some ''none''
         then Inl (ValueError (invalid_mode_message (case requested of Some r \<Rightarrow> r | None \<Rightarrow> [])))
         else if normalized = Some ''firejail''
         then (if \<not> firejail_found then Inl (RuntimeError firejail_missing_message)
               else Inr (''firejail'', [''Using sandbox mode: firejail'']))
         else if normalized = Some ''none''
         then Inr (''none'',
                   [''WARNING: Running without a sandbox executes arbitrary code on the host.''])
         else if firejail_found
         then Inr (''firejail'', [''Auto-detected Firejail; enabling sandboxed evaluation.''])
         else Inr (''none'',
                   [''WARNING: Firejail not found; proceeding without sandbox protection (mode: none).'']))"

text \<open>A request that selects auto-detection: unset, the empty string, or \<open>auto\<close> in any case.\<close>

definition requests_auto :: "string option \<Rightarrow> bool" where
  "requests_auto requested =
     (case requested of None \<Rightarrow> True | Some r \<Rightarrow> r = [] \<or> lower r = ''auto'')"

section \<open>The sample filter\<close>

text \<open>
  A sample is one JSON object of the sample file. \<open>sample.get("task_id")\<close> is \<open>None\<close> when
  the key is absent (or null) and a string otherwise. The \<open>completion\<close> key is absent
  (\<open>Missing\<close>), holds a string, or holds a JSON value that is no string (\<open>NonStr\<close>), on
  which \<open>.strip()\<close> raises \<open>AttributeError\<close>.
\<close>

datatype completion_field = Missing | Str string | NonStr

record sample =
  task_id :: "string option"
  completion :: completion_field

text \<open>
  One value of the \<open>defaultdict\<close> \<open>problem_samples\<close>. \<open>filtered_reasons\<close> is a
  dictionary from the reason tag to a count; dictionaries are association lists in
  insertion order, written with \<open>AList.update\<close> (an existing key keeps its place, a new
  key goes last) and read with \<open>map_of\<close>.
\<close>

record entry =
  kept :: "sample list"
  "all" :: "sample list"
  filtered_reasons :: "(string \<times> nat) list"

record filter_state =
  filtered_count :: nat
  total_count :: nat
  problem_samples :: "(string option \<times> entry) list"

definition default_entry :: entry where
  "default_entry = \<lparr>kept = [], all = [], filtered_reasons = []\<rparr>"

text \<open>\<open>problem_samples[task_id]\<close>: the entry, or the factory's fresh one.\<close>

definition lookup :: "(string option \<times> entry) list \<Rightarrow> string option \<Rightarrow> entry" where
  "lookup ps k = (case map_of ps k of None \<Rightarrow> default_entry | Some e \<Rightarrow> e)"

text \<open>An in-place change of \<open>problem_samples[task_id]\<close>, which creates a missing key.\<close>

definition modify ::
  "(string option \<times> entry) list \<Rightarrow> string option \<Rightarrow> (entry \<Rightarrow> entry) \<Rightarrow>
   (string option \<times> entry) list" where
  "modify ps k f = AList.update k (f (lookup ps k)) ps"

text \<open>\<open>d.get(reason, 0)\<close> on a reasons dictionary.\<close>

definition reason_count :: "(string \<times> nat) list \<Rightarrow> string \<Rightarrow> nat" where
  "reason_count d reason = (case map_of d reason of None \<Rightarrow> 0 | Some n \<Rightarrow> n)"

text \<open>
  The body of each rejecting branch: \<open>filtered_count += 1\<close> and the task's count for the
  reason goes up by one.
\<close>

definition reject :: "string \<Rightarrow> string option \<Rightarrow> filter_state \<Rightarrow> filter_state" where
  "reject reason task st =
     st\<lparr>filtered_count := filtered_count st + 1,
        problem_samples :=
          modify (problem_samples st) task
            (\<lambda>e. e\<lparr>filtered_reasons :=
                      AList.update reason (reason_count (filtered_reasons e) reason + 1)
                        (filtered_reasons e)\<rparr>)\<rparr>"

text \<open>\<open>abs(open_braces - close_braces)\<close> of a completion.\<close>

definition brace_delta :: "string \<Rightarrow> int" where
  "brace_delta c = \<bar>int (count_list c (CHR ''{'')) - int (count_list c (CHR ''}''))\<bar>"

text \<open>One iteration of the first pass (the body of \<open>for sample in reader\<close>).\<close>

definition step :: "filter_state \<Rightarrow> sample \<Rightarrow> py_error + filter_state" where
  "step st smp =
     (let st = st\<lparr>total_count := total_count st + 1\<rparr>;
          task = task_id smp
      in case (case completion smp of
                 Missing \<Rightarrow> Inr (strip [])
               | Str s \<Rightarrow> Inr (strip s)
               | NonStr \<Rightarrow> Inl AttributeError) of
           Inl e \<Rightarrow> Inl e
         | Inr c \<Rightarrow>
             let st = st\<lparr>problem_samples :=
                           modify (problem_samples st) task (\<lambda>e. e\<lparr>all := all e @ [smp]\<rparr>)\<rparr>
             in if c = [] then Inr (reject ''empty'' task st)
                else if length c < 10 then Inr (reject ''short'' task st)
                else if brace_delta c > 3 then Inr (reject ''braces'' task st)
                else Inr (st\<lparr>problem_samples :=
                               modify (problem_samples st) task
                                 (\<lambda>e. e\<lparr>kept := kept e @ [smp]\<rparr>)\<rparr>))"

fun first_pass :: "filter_state \<Rightarrow> sample list \<Rightarrow> py_error + filter_state" where
  "first_pass st [] = Inr st"
| "first_pass st (smp # rest) =
     (case step st smp of Inl e \<Rightarrow> Inl e | Inr st' \<Rightarrow> first_pass st' rest)"

text \<open>
  \<open>sorted(problem_samples.keys())\<close>. The keys are distinct; comparing \<open>None\<close> with a string
  raises \<open>TypeError\<close>, so the sort succeeds only when \<open>None\<close> is the one key or is no key.
  In both cases the order of \<open>HOL-Library.Option_ord\<close> is the order of the strings.
\<close>

definition sorted_keys :: "string option list \<Rightarrow> py_error + string option list" where
  "sorted_keys ks =
     (if None \<in> set ks \<and> (\<exists>k \<in> set ks. k \<noteq> None) then Inl TypeError else Inr (sort ks))"

text \<open>What the second pass writes for one task: the kept samples, or the first raw one.\<close>

definition emit :: "entry \<Rightarrow> sample list" where
  "emit e = (if length (kept e) = 0
             then (if length (all e) > 0 then [hd (all e)] else [])
             else kept e)"

text \<open>
  The warning printed when a task is backfilled, kept as the task and the reasons
  dictionary the line is formatted from.
\<close>

definition warning_of :: "string option \<Rightarrow> entry \<Rightarrow> (string option \<times> (string \<times> nat) list) list" where
  "warning_of k e = (if length (kept e) = 0 \<and> length (all e) > 0 then [(k, filtered_reasons e)] else [])"

text \<open>The summand of \<open>final_count\<close>.\<close>

definition final_summand :: "entry \<Rightarrow> nat" where
  "final_summand e = (if length (kept e) = 0 \<and> length (all e) > 0
                      then max 1 (length (kept e)) else length (kept e))"

text \<open>
  The result of \<open>_filter_bad_samples\<close>: \<open>written\<close> is the content of the file
  \<open>sample_file + ".filtered"\<close>, \<open>returns_filtered\<close> says whether the returned path is that
  file (otherwise it is \<open>sample_file\<close> itself), \<open>final_count\<close> is the printed number of
  samples to evaluate, computed only when something was filtered.
\<close>

record filter_result =
  written :: "sample list"
  warnings :: "(string option \<times> (string \<times> nat) list) list"
  returns_filtered :: bool
  final_count :: "nat option"
  final_state :: filter_state

definition filter_bad_samples :: "sample list \<Rightarrow> py_error + filter_result" where
  "filter_bad_samples raw =
     (case first_pass \<lparr>filtered_count = 0, total_count = 0, problem_samples = []\<rparr> raw of
        Inl e \<Rightarrow> Inl e
      | Inr st \<Rightarrow>
          (case sorted_keys (map fst (problem_samples st)) of
             Inl e \<Rightarrow> Inl e
           | Inr ks \<Rightarrow>
               Inr \<lparr>written = concat (map (\<lambda>k. emit (lookup (problem_samples st) k)) ks),
                    warnings = concat (map (\<lambda>k. warning_of k (lookup (problem_samples st) k)) ks),
                    returns_filtered = (filtered_count st > 0),
                    final_count =
                      (if filtered_count st > 0
                       then Some (sum_list (map (\<lambda>k. final_summand (lookup (problem_samples st) k))
                                              (map fst (problem_samples st))))
                       else None),
                    final_state = st\<rparr>))"

text \<open>The samples in the file whose path \<open>_filter_bad_samples\<close> returns.\<close>

definition returned_samples :: "sample list \<Rightarrow> filter_result \<Rightarrow> sample list" where
  "returned_samples raw r = (if returns_filtered r then written r else raw)"

subsection \<open>The rejection rules as the specification words them\<close>

text \<open>
  The specification's three predicates on the trimmed completion, applied in its order,
  the first match giving the reason. They are compared with the code further down.
\<close>

definition trimmed :: "sample \<Rightarrow> string" where
  "trimmed smp = (case completion smp of Str s \<Rightarrow> strip s | _ \<Rightarrow> [])"

definition spec_empty :: "string \<Rightarrow> bool" where
  "spec_empty c = (length c = 0)"

definition spec_too_short :: "string \<Rightarrow> bool" where
  "spec_too_short c = (length c < 10)"

definition spec_brace_imbalance :: "string \<Rightarrow> bool" where
  "spec_brace_imbalance c = (brace_delta c > 3)"

fun first_match :: "(string \<times> (string \<Rightarrow> bool)) list \<Rightarrow> string \<Rightarrow> string option" where
  "first_match [] c = None"
| "first_match ((tag, p) # rules) c = (if p c then Some tag else first_match rules c)"

definition spec_rules :: "(string \<times> (string \<Rightarrow> bool)) list" where
  "spec_rules =
     [(''empty'', spec_empty), (''short'', spec_too_short), (''braces'', spec_brace_imbalance)]"

definition rejection_reason :: "sample \<Rightarrow> string option" where
  "rejection_reason smp = first_match spec_rules (trimmed smp)"

definition passes :: "sample \<Rightarrow> bool" where
  "passes smp = (rejection_reason smp = None)"

text \<open>The samples of one task, in arrival order.\<close>

definition of_task :: "string option \<Rightarrow> sample list \<Rightarrow> sample list" where
  "of_task t raw = filter (\<lambda>s. task_id s = t) raw"

text \<open>
  The inputs on which \<open>_filter_bad_samples\<close> does not raise: every completion is a string
  or absent, and the task ids can be sorted (all strings, or all absent).
\<close>

definition well_formed :: "sample list \<Rightarrow> bool" where
  "well_formed raw =
     (list_all (\<lambda>s. completion s \<noteq> NonStr) raw \<and>
      (list_all (\<lambda>s. task_id s = None) raw \<or> list_all (\<lambda>s. task_id s \<noteq> None) raw))"

text \<open>
  What the specification has a task contribute to the output: its passing samples in
  arrival order, or its first raw sample when none passes.
\<close>

definition selected :: "sample list \<Rightarrow> string option \<Rightarrow> sample list" where
  "selected raw t =
     (if filter passes (of_task t raw) = [] then take 1 (of_task t raw)
      else filter passes (of_task t raw))"

subsection \<open>What one iteration does to a sample\<close>

text \<open>
  \<open>keeps st smp\<close>: the iteration on \<open>smp\<close> from state \<open>st\<close> does not raise, appends
  \<open>smp\<close> to its task's \<open>kept\<close> and \<open>all\<close> lists and counts nothing as filtered.
  \<open>rejects_as tag st smp\<close>: it does not raise, leaves \<open>kept\<close> alone, appends to
  \<open>all\<close>, adds one to \<open>filtered_count\<close> and one to the task's count for \<open>tag\<close>.
\<close>

definition keeps :: "filter_state \<Rightarrow> sample \<Rightarrow> bool" where
  "keeps st smp =
     (case step st smp of
        Inl e \<Rightarrow> False
      | Inr st' \<Rightarrow>
          (let before = lookup (problem_samples st) (task_id smp);
               after = lookup (problem_samples st') (task_id smp)
           in kept after = kept before @ [smp] \<and> all after = all before @ [smp] \<and>
              filtered_reasons after = filtered_reasons before \<and>
              filtered_count st' = filtered_count st \<and> total_count st' = total_count st + 1))"

definition rejects_as :: "string \<Rightarrow> filter_state \<Rightarrow> sample \<Rightarrow> bool" where
  "rejects_as tag st smp =
     (case step st smp of
        Inl e \<Rightarrow> False
      | Inr st' \<Rightarrow>
          (let before = lookup (problem_samples st) (task_id smp);
               after = lookup (problem_samples st') (task_id smp)
           in kept after = kept before \<and> all after = all before @ [smp] \<and>
              filtered_reasons after =
                AList.update tag (reason_count (filtered_reasons before) tag + 1)
                  (filtered_reasons before) \<and>
              filtered_count st' = filtered_count st + 1 \<and>
              total_count st' = total_count st + 1))"

subsection \<open>Sample inputs\<close>

text \<open>
  \<open>scenario\<close> is the specification's scenario; \<open>unsorted_clean\<close> holds two passing
  samples whose tasks arrive in descending order; the \<open>boundary\<close> samples sit on the
  thresholds (trimmed length 10 with brace difference 3, trimmed length 9, brace
  difference 4).
\<close>

definition scenario :: "sample list" where
  "scenario =
     [\<lparr>task_id = Some ''t1'', completion = Str ''ok codeok codeok codeok codeok code''\<rparr>,
      \<lparr>task_id = Some ''t1'', completion = Str ''''\<rparr>,
      \<lparr>task_id = Some ''t2'', completion = Str ''x''\<rparr>,
      \<lparr>task_id = Some ''t3'', completion = Str ''{{{{{''\<rparr>]"

definition unsorted_clean :: "sample list" where
  "unsorted_clean =
     [\<lparr>task_id = Some ''t2'', completion = Str ''fn b() { }''\<rparr>,
      \<lparr>task_id = Some ''t1'', completion = Str ''fn a() { }''\<rparr>]"

definition boundary_kept :: sample where
  "boundary_kept = \<lparr>task_id = Some ''t'', completion = Str ''  {{{abcdefg  ''\<rparr>"

definition boundary_short :: sample where
  "boundary_short = \<lparr>task_id = Some ''t'', completion = Str ''{{{ab}cde''\<rparr>"

definition boundary_braces :: sample where
  "boundary_braces = \<lparr>task_id = Some ''t'', completion = Str ''{{{{abcdef''\<rparr>"

definition missing_completion :: sample where
  "missing_completion = \<lparr>task_id = Some ''t'', completion = Missing\<rparr>"

definition with_missing :: "sample list" where
  "with_missing =
     [\<lparr>task_id = Some ''t'', completion = Missing\<rparr>,
      \<lparr>task_id = Some ''s'', completion = Str ''fn a() { }''\<rparr>]"

section \<open>Properties of the sandbox resolver\<close>

lemma lower_Nil_iff: "lower r = [] \<longleftrightarrow> r = []"
  by (simp add: lower_def)

lemma resolve_auto:
  assumes "requests_auto requested"
  shows "resolve_sandbox_mode found requested =
           (if found
            then Inr (''firejail'', [''Auto-detected Firejail; enabling sandboxed evaluation.''])
            else Inr (''none'',
              [''WARNING: Firejail not found; proceeding without sandbox protection (mode: none).'']))"
  using assms
  by (cases requested) (auto simp: requests_auto_def resolve_sandbox_mode_def Let_def)

lemma resolve_firejail:
  assumes "lower r = ''firejail''"
  shows "resolve_sandbox_mode found (Some r) =
           (if found then Inr (''firejail'', [''Using sandbox mode: firejail''])
            else Inl (RuntimeError firejail_missing_message))"
proof -
  from assms have "r \<noteq> []" by (auto simp: lower_def)
  with assms show ?thesis by (simp add: resolve_sandbox_mode_def Let_def)
qed

lemma resolve_none:
  assumes "lower r = ''none''"
  shows "resolve_sandbox_mode found (Some r) =
           Inr (''none'',
                [''WARNING: Running without a sandbox executes arbitrary code on the host.''])"
proof -
  from assms have "r \<noteq> []" by (auto simp: lower_def)
  with assms show ?thesis by (simp add: resolve_sandbox_mode_def Let_def)
qed

lemma resolve_invalid:
  assumes "r \<noteq> []" and "lower r \<notin> {''firejail'', ''none'', ''auto''}"
  shows "resolve_sandbox_mode found (Some r) = Inl (ValueError (invalid_mode_message r))"
  using assms by (simp add: resolve_sandbox_mode_def Let_def)

lemma contains_append: "contains sub (pre @ sub @ post)"
proof (induction pre)
  case Nil
  show ?case
  proof (cases "sub @ post")
    case Nil
    then show ?thesis by simp
  next
    case (Cons a list)
    have "prefix sub (sub @ post)" by simp
    with Cons show ?thesis by simp
  qed
next
  case (Cons c pre)
  then show ?case by simp
qed

text \<open>
  Claim C7. With \<open>auto\<close> (in any case) or no request, the resolver returns \<open>none\<close> with a
  message carrying the \<open>WARNING\<close> marker when Firejail is absent, and \<open>firejail\<close> with an
  informational message when it is present. With \<open>firejail\<close> requested it returns
  \<open>firejail\<close> when the tool is present and raises the configuration error (a
  \<open>RuntimeError\<close>) when it is absent. With \<open>none\<close> requested it returns \<open>none\<close> and a
  message carrying the \<open>WARNING\<close> marker, whatever the host has.
\<close>

theorem resolve_sandbox_mode_policy:
  "(requests_auto requested \<longrightarrow>
      (\<exists>m. resolve_sandbox_mode False requested = Inr (''none'', [m]) \<and> contains ''WARNING'' m) \<and>
      resolve_sandbox_mode True requested =
        Inr (''firejail'', [''Auto-detected Firejail; enabling sandboxed evaluation.''])) \<and>
   (lower r = ''firejail'' \<longrightarrow>
      resolve_sandbox_mode True (Some r) = Inr (''firejail'', [''Using sandbox mode: firejail'']) \<and>
      resolve_sandbox_mode False (Some r) = Inl (RuntimeError firejail_missing_message)) \<and>
   (lower r' = ''none'' \<longrightarrow>
      (\<exists>m. (\<forall>found. resolve_sandbox_mode found (Some r') = Inr (''none'', [m])) \<and>
           contains ''WARNING'' m))"
proof (intro conjI impI)
  assume a: "requests_auto requested"
  have "contains ''WARNING''
          ([] @ ''WARNING'' @ '': Firejail not found; proceeding without sandbox protection (mode: none).'')"
    by (rule contains_append)
  then show "\<exists>m. resolve_sandbox_mode False requested = Inr (''none'', [m]) \<and> contains ''WARNING'' m"
    using resolve_auto [OF a, of False] by simp
  show "resolve_sandbox_mode True requested =
          Inr (''firejail'', [''Auto-detected Firejail; enabling sandboxed evaluation.''])"
    using resolve_auto [OF a, of True] by simp
next
  assume f: "lower r = ''firejail''"
  show "resolve_sandbox_mode True (Some r) = Inr (''firejail'', [''Using sandbox mode: firejail''])"
    using resolve_firejail [OF f, of True] by simp
  show "resolve_sandbox_mode False (Some r) = Inl (RuntimeError firejail_missing_message)"
    using resolve_firejail [OF f, of False] by simp
next
  assume n: "lower r' = ''none''"
  have "contains ''WARNING''
          ([] @ ''WARNING'' @ '': Running without a sandbox executes arbitrary code on the host.'')"
    by (rule contains_append)
  then show "\<exists>m. (\<forall>found. resolve_sandbox_mode found (Some r') = Inr (''none'', [m])) \<and>
                contains ''WARNING'' m"
    using resolve_none [OF n] by simp
qed

theorem resolve_sandbox_mode_policy_witness:
  "requests_auto (Some ''AUTO'') \<and> lower ''FireJail'' = ''firejail'' \<and> lower ''None'' = ''none'' \<and>
   resolve_sandbox_mode False (Some ''AUTO'') =
     Inr (''none'',
       [''WARNING: Firejail not found; proceeding without sandbox protection (mode: none).'']) \<and>
   resolve_sandbox_mode True (Some ''AUTO'') =
     Inr (''firejail'', [''Auto-detected Firejail; enabling sandboxed evaluation.'']) \<and>
   resolve_sandbox_mode True (Some ''FireJail'') =
     Inr (''firejail'', [''Using sandbox mode: firejail'']) \<and>
   resolve_sandbox_mode False (Some ''FireJail'') = Inl (RuntimeError firejail_missing_message) \<and>
   resolve_sandbox_mode False (Some ''None'') =
     Inr (''none'', [''WARNING: Running without a sandbox executes arbitrary code on the host.''])"
proof -
  have a: "requests_auto (Some ''AUTO'')" by code_simp
  have f: "lower ''FireJail'' = ''firejail''" by code_simp
  have n: "lower ''None'' = ''none''" by code_simp
  from resolve_sandbox_mode_policy [of "Some ''AUTO''" "''FireJail''" "''None''"] a f n
  have p: "(\<exists>m. resolve_sandbox_mode False (Some ''AUTO'') = Inr (''none'', [m]) \<and>
                contains ''WARNING'' m)"
    and q: "resolve_sandbox_mode True (Some ''AUTO'') =
              Inr (''firejail'', [''Auto-detected Firejail; enabling sandboxed evaluation.''])"
    and s: "resolve_sandbox_mode True (Some ''FireJail'') =
              Inr (''firejail'', [''Using sandbox mode: firejail''])"
    and t: "resolve_sandbox_mode False (Some ''FireJail'') = Inl (RuntimeError firejail_missing_message)"
    by blast+
  have u: "resolve_sandbox_mode False (Some ''AUTO'') =
     Inr (''none'',
       [''WARNING: Firejail not found; proceeding without sandbox protection (mode: none).''])"
    using resolve_auto [OF a, of False] by simp
  have v: "resolve_sandbox_mode False (Some ''None'') =
     Inr (''none'', [''WARNING: Running without a sandbox executes arbitrary code on the host.''])"
    using resolve_none [OF n, of False] by simp
  from a f n q s t u v show ?thesis by blast
qed

section \<open>Properties of the sample filter\<close>

subsection \<open>The first pass\<close>

lemma lookup_modify:
  "lookup (modify ps k f) k' = (if k' = k then f (lookup ps k) else lookup ps k')"
  by (simp add: lookup_def modify_def update_conv')

lemma keys_modify: "fst ` set (modify ps k f) = insert k (fst ` set ps)"
  by (simp add: modify_def dom_update)

lemma distinct_modify: "distinct (map fst ps) \<Longrightarrow> distinct (map fst (modify ps k f))"
  by (simp add: modify_def distinct_update)

lemma reason_count_update:
  "reason_count (AList.update r n d) r' = (if r' = r then n else reason_count d r')"
  by (simp add: reason_count_def update_conv')

lemma rejection_reason_cases:
  "rejection_reason smp =
     (if trimmed smp = [] then Some ''empty''
      else if length (trimmed smp) < 10 then Some ''short''
      else if brace_delta (trimmed smp) > 3 then Some ''braces'' else None)"
  by (simp add: rejection_reason_def spec_rules_def spec_empty_def spec_too_short_def
      spec_brace_imbalance_def)

text \<open>The state after one sample that does not raise.\<close>

lemma step_eq:
  "step st smp =
     (if completion smp = NonStr then Inl AttributeError
      else let st1 = st\<lparr>total_count := total_count st + 1,
                        problem_samples := modify (problem_samples st) (task_id smp)
                                             (\<lambda>e. e\<lparr>all := all e @ [smp]\<rparr>)\<rparr>
           in Inr (case rejection_reason smp of
                     Some r \<Rightarrow> reject r (task_id smp) st1
                   | None \<Rightarrow> st1\<lparr>problem_samples :=
                                  modify (problem_samples st1) (task_id smp)
                                    (\<lambda>e. e\<lparr>kept := kept e @ [smp]\<rparr>)\<rparr>))"
  by (cases "completion smp")
     (simp_all add: step_def Let_def rejection_reason_cases trimmed_def strip_def)


lemma step_all:
  "step st smp = Inr st' \<Longrightarrow>
   all (lookup (problem_samples st') t) =
     all (lookup (problem_samples st) t) @ of_task t [smp]"
  by (auto simp: step_eq Let_def reject_def lookup_modify of_task_def
      split: if_splits option.splits)

lemma step_kept:
  "step st smp = Inr st' \<Longrightarrow>
   kept (lookup (problem_samples st') t) =
     kept (lookup (problem_samples st) t) @ filter passes (of_task t [smp])"
  by (auto simp: step_eq Let_def reject_def lookup_modify of_task_def passes_def
      split: if_splits option.splits)

lemma step_reasons:
  "step st smp = Inr st' \<Longrightarrow>
   reason_count (filtered_reasons (lookup (problem_samples st') t)) r =
     reason_count (filtered_reasons (lookup (problem_samples st) t)) r +
     length (filter (\<lambda>s. rejection_reason s = Some r) (of_task t [smp]))"
  by (auto simp: step_eq Let_def reject_def lookup_modify of_task_def reason_count_update
      split: if_splits option.splits)

lemma step_keys:
  "step st smp = Inr st' \<Longrightarrow>
   fst ` set (problem_samples st') = insert (task_id smp) (fst ` set (problem_samples st))"
  apply (clarsimp simp: step_eq Let_def split: if_splits)
  apply (cases "rejection_reason smp")
   apply (simp_all add: reject_def keys_modify)
  done

lemma step_distinct:
  "step st smp = Inr st' \<Longrightarrow> distinct (map fst (problem_samples st)) \<Longrightarrow>
   distinct (map fst (problem_samples st'))"
  by (auto simp: step_eq Let_def reject_def distinct_modify
      split: if_splits option.splits)

lemma step_counts:
  "step st smp = Inr st' \<Longrightarrow>
   total_count st' = total_count st + 1 \<and>
   filtered_count st' = filtered_count st + length (filter (\<lambda>s. \<not> passes s) [smp])"
  by (auto simp: step_eq Let_def reject_def passes_def
      split: if_splits option.splits)

lemma first_pass_total:
  "list_all (\<lambda>s. completion s \<noteq> NonStr) raw \<Longrightarrow> \<exists>st'. first_pass st raw = Inr st'"
proof (induction raw arbitrary: st)
  case Nil
  show ?case by simp
next
  case (Cons smp raw)
  then obtain st1 where "step st smp = Inr st1"
    by (auto simp: step_eq Let_def)
  with Cons show ?case by simp
qed

lemma first_pass_raises:
  "first_pass st raw = Inl e \<Longrightarrow> e = AttributeError \<and> \<not> list_all (\<lambda>s. completion s \<noteq> NonStr) raw"
proof (induction raw arbitrary: st)
  case Nil
  then show ?case by simp
next
  case (Cons smp raw)
  then show ?case
    by (cases "step st smp") (auto simp: step_eq Let_def split: if_splits)
qed

lemma first_pass_all:
  "first_pass st raw = Inr st' \<Longrightarrow>
   all (lookup (problem_samples st') t) = all (lookup (problem_samples st) t) @ of_task t raw"
proof (induction raw arbitrary: st)
  case Nil
  then show ?case by (simp add: of_task_def)
next
  case (Cons smp raw)
  then obtain st1 where s: "step st smp = Inr st1" and r: "first_pass st1 raw = Inr st'"
    by (auto split: sum.splits)
  from Cons.IH [OF r] step_all [OF s, of t] show ?case
    by (simp add: of_task_def)
qed

lemma first_pass_kept:
  "first_pass st raw = Inr st' \<Longrightarrow>
   kept (lookup (problem_samples st') t) =
     kept (lookup (problem_samples st) t) @ filter passes (of_task t raw)"
proof (induction raw arbitrary: st)
  case Nil
  then show ?case by (simp add: of_task_def)
next
  case (Cons smp raw)
  then obtain st1 where s: "step st smp = Inr st1" and r: "first_pass st1 raw = Inr st'"
    by (auto split: sum.splits)
  from Cons.IH [OF r] step_kept [OF s, of t] show ?case
    by (simp add: of_task_def)
qed

lemma first_pass_reasons:
  "first_pass st raw = Inr st' \<Longrightarrow>
   reason_count (filtered_reasons (lookup (problem_samples st') t)) r =
     reason_count (filtered_reasons (lookup (problem_samples st) t)) r +
     length (filter (\<lambda>s. rejection_reason s = Some r) (of_task t raw))"
proof (induction raw arbitrary: st)
  case Nil
  then show ?case by (simp add: of_task_def)
next
  case (Cons smp raw)
  then obtain st1 where s: "step st smp = Inr st1" and r: "first_pass st1 raw = Inr st'"
    by (auto split: sum.splits)
  from Cons.IH [OF r] step_reasons [OF s, of t r] show ?case
    by (simp add: of_task_def)
qed

lemma first_pass_keys:
  "first_pass st raw = Inr st' \<Longrightarrow>
   fst ` set (problem_samples st') = fst ` set (problem_samples st) \<union> task_id ` set raw"
proof (induction raw arbitrary: st)
  case Nil
  then show ?case by simp
next
  case (Cons smp raw)
  then obtain st1 where s: "step st smp = Inr st1" and r: "first_pass st1 raw = Inr st'"
    by (auto split: sum.splits)
  from Cons.IH [OF r] step_keys [OF s] show ?case
    by auto
qed

lemma first_pass_distinct:
  "first_pass st raw = Inr st' \<Longrightarrow> distinct (map fst (problem_samples st)) \<Longrightarrow>
   distinct (map fst (problem_samples st'))"
proof (induction raw arbitrary: st)
  case Nil
  then show ?case by simp
next
  case (Cons smp raw)
  then obtain st1 where s: "step st smp = Inr st1" and r: "first_pass st1 raw = Inr st'"
    by (auto split: sum.splits)
  from Cons.IH [OF r] step_distinct [OF s] Cons.prems(2) show ?case
    by simp
qed

lemma first_pass_counts:
  "first_pass st raw = Inr st' \<Longrightarrow>
   total_count st' = total_count st + length raw \<and>
   filtered_count st' = filtered_count st + length (filter (\<lambda>s. \<not> passes s) raw)"
proof (induction raw arbitrary: st)
  case Nil
  then show ?case by simp
next
  case (Cons smp raw)
  then obtain st1 where s: "step st smp = Inr st1" and r: "first_pass st1 raw = Inr st'"
    by (auto split: sum.splits)
  from Cons.IH [OF r] step_counts [OF s] show ?case
    by simp
qed

subsection \<open>The second pass\<close>

lemma sorted_all_equal:
  fixes xs :: "'k::linorder list"
  shows "(\<And>x. x \<in> set xs \<Longrightarrow> x = k) \<Longrightarrow> sorted xs"
  by (induction xs) auto

lemma sorted_concat_groups:
  fixes g :: "'a \<Rightarrow> 'k::linorder"
  assumes "sorted ks" and "\<And>k x. k \<in> set ks \<Longrightarrow> x \<in> set (f k) \<Longrightarrow> g x = k"
  shows "sorted (map g (concat (map f ks)))"
  using assms
proof (induction ks)
  case Nil
  show ?case by simp
next
  case (Cons k ks)
  have same: "\<And>x. x \<in> set (f k) \<Longrightarrow> g x = k"
    using Cons.prems(2) by simp
  have here: "sorted (map g (f k))"
    by (rule sorted_all_equal) (auto simp: same)
  have rest: "sorted (map g (concat (map f ks)))"
    using Cons by simp
  have le: "\<And>x y. x \<in> set (f k) \<Longrightarrow> y \<in> set (concat (map f ks)) \<Longrightarrow> g x \<le> g y"
  proof -
    fix x y
    assume x: "x \<in> set (f k)" and y: "y \<in> set (concat (map f ks))"
    from y obtain k' where k': "k' \<in> set ks" "y \<in> set (f k')" by auto
    then have "g y = k'" using Cons.prems(2) by simp
    moreover have "k \<le> k'" using Cons.prems(1) k'(1) by simp
    ultimately show "g x \<le> g y" using same [OF x] by simp
  qed
  show ?case
    using here rest le by (auto simp: sorted_append)
qed

lemma filter_concat_groups:
  assumes "distinct ks" and "\<And>k x. k \<in> set ks \<Longrightarrow> x \<in> set (f k) \<Longrightarrow> g x = k"
  shows "filter (\<lambda>x. g x = t) (concat (map f ks)) = (if t \<in> set ks then f t else [])"
  using assms
proof (induction ks)
  case Nil
  show ?case by simp
next
  case (Cons k ks)
  have same: "\<And>x. x \<in> set (f k) \<Longrightarrow> g x = k"
    using Cons.prems(2) by simp
  have ih: "filter (\<lambda>x. g x = t) (concat (map f ks)) = (if t \<in> set ks then f t else [])"
    using Cons by simp
  have here: "filter (\<lambda>x. g x = t) (f k) = (if k = t then f k else [])"
    using same by (auto simp: filter_empty_conv filter_id_conv)
  from Cons.prems(1) have "k \<notin> set ks" by simp
  with ih here show ?case by auto
qed

lemma selected_task: "x \<in> set (selected raw t) \<Longrightarrow> task_id x = t"
  by (auto simp: selected_def of_task_def split: if_splits dest: in_set_takeD)

lemma selected_subset: "set (selected raw t) \<subseteq> set raw"
  by (auto simp: selected_def of_task_def split: if_splits dest: in_set_takeD)

lemma selected_empty_iff: "selected raw t = [] \<longleftrightarrow> t \<notin> task_id ` set raw"
  by (auto simp: selected_def of_task_def filter_empty_conv take_Suc split: list.splits)

lemma lookup_empty: "lookup [] t = default_entry"
  by (simp add: lookup_def)

lemma emit_final:
  assumes "first_pass \<lparr>filtered_count = 0, total_count = 0, problem_samples = []\<rparr> raw = Inr st"
  shows "emit (lookup (problem_samples st) t) = selected raw t"
  using first_pass_all [OF assms, of t] first_pass_kept [OF assms, of t]
  by (cases "of_task t raw") (simp_all add: emit_def selected_def lookup_empty default_entry_def)

lemma sorted_keys_Inr:
  "sorted_keys ks = Inr ks' \<Longrightarrow> ks' = sort ks"
  by (auto simp: sorted_keys_def split: if_splits)

lemma sorted_keys_ok:
  "(\<forall>k \<in> set ks. k = None) \<or> (\<forall>k \<in> set ks. k \<noteq> None) \<Longrightarrow> sorted_keys ks = Inr (sort ks)"
  by (auto simp: sorted_keys_def)

subsection \<open>The whole filter\<close>

lemma well_formed_keys:
  assumes "well_formed raw" and "fst ` set ps = task_id ` set raw"
  shows "(\<forall>k \<in> set (map fst ps). k = None) \<or> (\<forall>k \<in> set (map fst ps). k \<noteq> None)"
  using assms by (auto simp: well_formed_def list_all_iff)

lemma filter_bad_samples_total:
  assumes "well_formed raw"
  shows "\<exists>r. filter_bad_samples raw = Inr r"
proof -
  from assms have "list_all (\<lambda>s. completion s \<noteq> NonStr) raw"
    by (simp add: well_formed_def)
  from first_pass_total [OF this]
  obtain st where st: "first_pass \<lparr>filtered_count = 0, total_count = 0, problem_samples = []\<rparr> raw = Inr st"
    by blast
  from first_pass_keys [OF st] have "fst ` set (problem_samples st) = task_id ` set raw"
    by simp
  from sorted_keys_ok [OF well_formed_keys [OF assms this]] st
  show ?thesis by (simp add: filter_bad_samples_def)
qed

lemma filter_bad_samples_fields:
  assumes "filter_bad_samples raw = Inr r"
  shows "first_pass \<lparr>filtered_count = 0, total_count = 0, problem_samples = []\<rparr> raw =
           Inr (final_state r)"
    and "returns_filtered r = (filtered_count (final_state r) > 0)"
    and "written r =
           concat (map (\<lambda>k. emit (lookup (problem_samples (final_state r)) k))
                       (sort (map fst (problem_samples (final_state r)))))"
proof -
  from assms obtain st ks where
    st: "first_pass \<lparr>filtered_count = 0, total_count = 0, problem_samples = []\<rparr> raw = Inr st"
    and ks: "sorted_keys (map fst (problem_samples st)) = Inr ks"
    and r: "r = \<lparr>written = concat (map (\<lambda>k. emit (lookup (problem_samples st) k)) ks),
                 warnings = concat (map (\<lambda>k. warning_of k (lookup (problem_samples st) k)) ks),
                 returns_filtered = (filtered_count st > 0),
                 final_count =
                   (if filtered_count st > 0
                    then Some (sum_list (map (\<lambda>k. final_summand (lookup (problem_samples st) k))
                                           (map fst (problem_samples st))))
                    else None),
                 final_state = st\<rparr>"
    by (auto simp: filter_bad_samples_def split: sum.splits)
  from st r show "first_pass \<lparr>filtered_count = 0, total_count = 0, problem_samples = []\<rparr> raw =
           Inr (final_state r)" by simp
  from r show "returns_filtered r = (filtered_count (final_state r) > 0)" by simp
  from r sorted_keys_Inr [OF ks] show "written r =
           concat (map (\<lambda>k. emit (lookup (problem_samples (final_state r)) k))
                       (sort (map fst (problem_samples (final_state r)))))" by simp
qed

lemma filter_bad_samples_state:
  assumes "filter_bad_samples raw = Inr r"
  shows "first_pass \<lparr>filtered_count = 0, total_count = 0, problem_samples = []\<rparr> raw =
           Inr (final_state r)"
  by (rule filter_bad_samples_fields(1) [OF assms])

lemma filter_bad_samples_written:
  assumes "filter_bad_samples raw = Inr r"
  shows "written r = concat (map (selected raw) (sorted_list_of_set (task_id ` set raw)))"
proof -
  let ?st = "final_state r"
  have st: "first_pass \<lparr>filtered_count = 0, total_count = 0, problem_samples = []\<rparr> raw = Inr ?st"
    by (rule filter_bad_samples_state [OF assms])
  have keys: "set (map fst (problem_samples ?st)) = task_id ` set raw"
    using first_pass_keys [OF st] by simp
  have dist: "distinct (map fst (problem_samples ?st))"
    using first_pass_distinct [OF st] by simp
  have srt: "sort (map fst (problem_samples ?st)) = sorted_list_of_set (task_id ` set raw)"
    using keys dist by (metis sorted_list_of_set_sort_remdups distinct_remdups_id)
  have em: "(\<lambda>k. emit (lookup (problem_samples ?st) k)) = selected raw"
    using emit_final [OF st] by auto
  from filter_bad_samples_fields(3) [OF assms] srt em show ?thesis by simp
qed

lemma filter_bad_samples_returns:
  assumes "filter_bad_samples raw = Inr r"
  shows "returns_filtered r \<longleftrightarrow> \<not> list_all passes raw"
proof -
  have st: "first_pass \<lparr>filtered_count = 0, total_count = 0, problem_samples = []\<rparr> raw =
              Inr (final_state r)"
    by (rule filter_bad_samples_state [OF assms])
  from filter_bad_samples_fields(2) [OF assms] first_pass_counts [OF st] show ?thesis
    by (auto simp: list_all_iff filter_empty_conv)
qed

lemma of_task_written:
  assumes "filter_bad_samples raw = Inr r"
  shows "of_task t (written r) = selected raw t"
proof -
  have "filter (\<lambda>x. task_id x = t)
          (concat (map (selected raw) (sorted_list_of_set (task_id ` set raw)))) =
        (if t \<in> set (sorted_list_of_set (task_id ` set raw)) then selected raw t else [])"
    by (rule filter_concat_groups) (auto dest: selected_task)
  moreover have "t \<notin> task_id ` set raw \<Longrightarrow> selected raw t = []"
    by (simp add: selected_empty_iff)
  ultimately show ?thesis
    unfolding of_task_def filter_bad_samples_written [OF assms] by auto
qed

lemma sorted_written:
  assumes "filter_bad_samples raw = Inr r"
  shows "sorted (map task_id (written r))"
  unfolding filter_bad_samples_written [OF assms]
  by (rule sorted_concat_groups) (auto dest: selected_task)

lemma tasks_written:
  assumes "filter_bad_samples raw = Inr r"
  shows "task_id ` set (written r) = task_id ` set raw"
proof
  show "task_id ` set (written r) \<subseteq> task_id ` set raw"
    unfolding filter_bad_samples_written [OF assms] using selected_subset by fastforce
next
  show "task_id ` set raw \<subseteq> task_id ` set (written r)"
  proof
    fix t assume t: "t \<in> task_id ` set raw"
    then have "selected raw t \<noteq> []" by (simp add: selected_empty_iff)
    then obtain x where x: "x \<in> set (selected raw t)" by (cases "selected raw t") auto
    then have "x \<in> set (written r)"
      unfolding filter_bad_samples_written [OF assms] using t by auto
    moreover have "task_id x = t" using x by (rule selected_task)
    ultimately show "t \<in> task_id ` set (written r)" by auto
  qed
qed

subsection \<open>Claims about the filter\<close>

lemma selected_subseq: "subseq (selected raw t) (of_task t raw)"
  by (simp add: selected_def prefix_imp_subseq take_is_prefix)

lemma selected_clean:
  assumes "list_all passes raw"
  shows "selected raw t = of_task t raw"
proof -
  have "\<forall>x \<in> set (of_task t raw). passes x"
    using assms by (auto simp: of_task_def list_all_iff)
  then have "filter passes (of_task t raw) = of_task t raw"
    by (rule filter_True)
  then show ?thesis by (cases "of_task t raw") (simp_all add: selected_def)
qed

lemma count_filter_same:
  "P x \<Longrightarrow> count (mset (filter P xs)) x = count (mset xs) x"
  by (induction xs) auto

lemma mset_by_groups:
  assumes "\<And>t. filter (\<lambda>x. g x = t) xs = filter (\<lambda>x. g x = t) ys"
  shows "mset xs = mset ys"
proof (rule multiset_eqI)
  fix x
  have "count (mset xs) x = count (mset (filter (\<lambda>y. g y = g x) xs)) x"
    by (simp add: count_filter_same [where P = "\<lambda>y. g y = g x"])
  also have "\<dots> = count (mset (filter (\<lambda>y. g y = g x) ys)) x"
    by (simp add: assms)
  also have "\<dots> = count (mset ys) x"
    by (simp add: count_filter_same [where P = "\<lambda>y. g y = g x"])
  finally show "count (mset xs) x = count (mset ys) x" .
qed

text \<open>
  Claim C1. On every input the filter accepts (completions that are strings or absent,
  task ids that can be sorted), the filter returns, and the samples in the returned
  file cover exactly the task ids of the raw input; so do the samples of the filtered
  file. Every task of the input has at least one sample there, and a task none of whose
  samples passes gets exactly its first raw sample.
\<close>

theorem filter_preserves_coverage:
  assumes "well_formed raw"
  shows "\<exists>r. filter_bad_samples raw = Inr r \<and>
             task_id ` set (returned_samples raw r) = task_id ` set raw \<and>
             task_id ` set (written r) = task_id ` set raw \<and>
             (\<forall>t \<in> task_id ` set raw.
                of_task t (written r) \<noteq> [] \<and>
                (filter passes (of_task t raw) = [] \<longrightarrow>
                   of_task t (written r) = [hd (of_task t raw)]))"
proof -
  from filter_bad_samples_total [OF assms] obtain r where r: "filter_bad_samples raw = Inr r"
    by blast
  have w: "task_id ` set (written r) = task_id ` set raw"
    by (rule tasks_written [OF r])
  then have "task_id ` set (returned_samples raw r) = task_id ` set raw"
    by (simp add: returned_samples_def)
  moreover have "of_task t (written r) \<noteq> [] \<and>
        (filter passes (of_task t raw) = [] \<longrightarrow> of_task t (written r) = [hd (of_task t raw)])"
    if t: "t \<in> task_id ` set raw" for t
  proof -
    from t have ne: "of_task t raw \<noteq> []"
      by (auto simp: of_task_def filter_empty_conv)
    then have "take 1 (of_task t raw) = [hd (of_task t raw)]"
      by (cases "of_task t raw") simp_all
    moreover from t have "selected raw t \<noteq> []" by (simp add: selected_empty_iff)
    ultimately show ?thesis
      by (simp add: of_task_written [OF r] selected_def)
  qed
  ultimately show ?thesis using r w by blast
qed

theorem filter_preserves_coverage_witness:
  "well_formed scenario \<and>
   (\<exists>r. filter_bad_samples scenario = Inr r \<and>
        task_id ` set (returned_samples scenario r) = {Some ''t1'', Some ''t2'', Some ''t3''} \<and>
        of_task (Some ''t2'') (written r) = [\<lparr>task_id = Some ''t2'', completion = Str ''x''\<rparr>])"
proof -
  have wf: "well_formed scenario" by (simp add: well_formed_def scenario_def)
  have tasks: "task_id ` set scenario = {Some ''t1'', Some ''t2'', Some ''t3''}"
    by (simp add: scenario_def insert_commute)
  have none: "filter passes (of_task (Some ''t2'') scenario) = []" by code_simp
  have first: "hd (of_task (Some ''t2'') scenario) = \<lparr>task_id = Some ''t2'', completion = Str ''x''\<rparr>"
    by (simp add: of_task_def scenario_def)
  have mem: "Some ''t2'' \<in> task_id ` set scenario" by (simp add: scenario_def)
  from filter_preserves_coverage [OF wf] obtain r where
    h: "filter_bad_samples scenario = Inr r \<and>
        task_id ` set (returned_samples scenario r) = task_id ` set scenario \<and>
        task_id ` set (written r) = task_id ` set scenario \<and>
        (\<forall>t \<in> task_id ` set scenario.
           of_task t (written r) \<noteq> [] \<and>
           (filter passes (of_task t scenario) = [] \<longrightarrow>
              of_task t (written r) = [hd (of_task t scenario)]))" ..
  note r = h [THEN conjunct1]
  note c = h [THEN conjunct2, THEN conjunct1]
  note b = h [THEN conjunct2, THEN conjunct2, THEN conjunct2]
  from bspec [OF b mem] have
    "filter passes (of_task (Some ''t2'') scenario) = [] \<longrightarrow>
       of_task (Some ''t2'') (written r) = [hd (of_task (Some ''t2'') scenario)]"
    by (rule conjunct2)
  from mp [OF this none] have w: "of_task (Some ''t2'') (written r) =
      [\<lparr>task_id = Some ''t2'', completion = Str ''x''\<rparr>]"
    by (simp only: first)
  from c have c': "task_id ` set (returned_samples scenario r) =
      {Some ''t1'', Some ''t2'', Some ''t3''}"
    by (simp only: tasks)
  from r c' w have "\<exists>r. filter_bad_samples scenario = Inr r \<and>
        task_id ` set (returned_samples scenario r) = {Some ''t1'', Some ''t2'', Some ''t3''} \<and>
        of_task (Some ''t2'') (written r) = [\<lparr>task_id = Some ''t2'', completion = Str ''x''\<rparr>]"
    by (intro exI conjI)
  with wf show ?thesis by (rule conjI)
qed

text \<open>
  Claim C4, as amended. The filtered file that \<open>_filter_bad_samples\<close> writes lists the
  tasks in sorted order of \<open>task_id\<close>, and the samples of each task are a subsequence of
  that task's raw samples in arrival order (the passing ones, or the first raw one).
  The function returns that file only when at least one sample was rejected; when no
  sample is rejected it returns the sample file, whose records are the input in arrival
  order. The result is a function of the input, so identical input gives identical
  output.
\<close>

theorem filtered_file_order:
  assumes "well_formed raw"
  shows "\<exists>r. filter_bad_samples raw = Inr r \<and>
             sorted (map task_id (written r)) \<and>
             (\<forall>t. of_task t (written r) = selected raw t \<and>
                  subseq (of_task t (written r)) (of_task t raw)) \<and>
             returned_samples raw r = (if list_all passes raw then raw else written r)"
proof -
  from filter_bad_samples_total [OF assms] obtain r where r: "filter_bad_samples raw = Inr r"
    by blast
  have "sorted (map task_id (written r))" by (rule sorted_written [OF r])
  moreover have "\<forall>t. of_task t (written r) = selected raw t \<and>
                     subseq (of_task t (written r)) (of_task t raw)"
    by (simp add: of_task_written [OF r] selected_subseq)
  moreover have "returned_samples raw r = (if list_all passes raw then raw else written r)"
    by (simp add: returned_samples_def filter_bad_samples_returns [OF r])
  ultimately show ?thesis using r by blast
qed

theorem filtered_file_order_witness:
  "well_formed scenario \<and>
   (\<exists>r. filter_bad_samples scenario = Inr r \<and>
        sorted (map task_id (written r)) \<and>
        returned_samples scenario r = written r \<and>
        of_task (Some ''t1'') (written r) =
          [\<lparr>task_id = Some ''t1'', completion = Str ''ok codeok codeok codeok codeok code''\<rparr>])"
proof -
  have wf: "well_formed scenario" by (simp add: well_formed_def scenario_def)
  have dirty: "\<not> list_all passes scenario" by code_simp
  have sel: "selected scenario (Some ''t1'') =
          [\<lparr>task_id = Some ''t1'', completion = Str ''ok codeok codeok codeok codeok code''\<rparr>]"
    by code_simp
  from filtered_file_order [OF wf] obtain r where
    "filter_bad_samples scenario = Inr r" "sorted (map task_id (written r))"
    "\<forall>t. of_task t (written r) = selected scenario t \<and>
         subseq (of_task t (written r)) (of_task t scenario)"
    "returned_samples scenario r = (if list_all passes scenario then scenario else written r)"
    by blast
  with wf dirty sel show ?thesis by auto
qed

text \<open>
  The claim as first stated fails where nothing is rejected: two passing samples whose
  tasks arrive in descending order come back in that order.
\<close>

theorem returned_file_not_sorted:
  "\<exists>r. filter_bad_samples unsorted_clean = Inr r \<and>
       \<not> returns_filtered r \<and>
       map task_id (returned_samples unsorted_clean r) = [Some ''t2'', Some ''t1''] \<and>
       \<not> sorted (map task_id (returned_samples unsorted_clean r))"
proof -
  have wf: "well_formed unsorted_clean" by (simp add: well_formed_def unsorted_clean_def)
  have clean: "list_all passes unsorted_clean" by code_simp
  from filter_bad_samples_total [OF wf] obtain r where r: "filter_bad_samples unsorted_clean = Inr r"
    by blast
  have nf: "\<not> returns_filtered r"
    by (simp add: filter_bad_samples_returns [OF r] clean)
  then have m: "map task_id (returned_samples unsorted_clean r) = [Some ''t2'', Some ''t1'']"
    by (simp add: returned_samples_def unsorted_clean_def)
  have "\<not> sorted [Some ''t2'', Some ''t1'']" by code_simp
  with r nf m show ?thesis by auto
qed

text \<open>
  Claim C8. Filtering a sample set in which every sample passes all three rejection
  rules returns the input itself: nothing is counted as filtered, so the returned path
  is the sample file, whose samples are the input unchanged. The filtered file that is
  written on the side holds the same samples as a multiset (regrouped by task).
\<close>

theorem filter_identity_on_clean:
  assumes "well_formed raw" and "list_all passes raw"
  shows "\<exists>r. filter_bad_samples raw = Inr r \<and>
             \<not> returns_filtered r \<and>
             returned_samples raw r = raw \<and>
             mset (written r) = mset raw"
proof -
  from filter_bad_samples_total [OF assms(1)] obtain r where r: "filter_bad_samples raw = Inr r"
    by blast
  have nf: "\<not> returns_filtered r"
    by (simp add: filter_bad_samples_returns [OF r] assms(2))
  then have "returned_samples raw r = raw" by (simp add: returned_samples_def)
  moreover have "mset (written r) = mset raw"
  proof (rule mset_by_groups [where g = task_id])
    fix t
    show "filter (\<lambda>x. task_id x = t) (written r) = filter (\<lambda>x. task_id x = t) raw"
      using of_task_written [OF r, of t] selected_clean [OF assms(2), of t]
      by (simp add: of_task_def)
  qed
  ultimately show ?thesis using r nf by blast
qed

theorem filter_identity_on_clean_witness:
  "well_formed unsorted_clean \<and> list_all passes unsorted_clean \<and>
   (\<exists>r. filter_bad_samples unsorted_clean = Inr r \<and>
        returned_samples unsorted_clean r = unsorted_clean \<and>
        mset (written r) = mset unsorted_clean)"
proof -
  have wf: "well_formed unsorted_clean" by (simp add: well_formed_def unsorted_clean_def)
  have clean: "list_all passes unsorted_clean" by code_simp
  from filter_identity_on_clean [OF wf clean] wf clean show ?thesis by blast
qed

subsection \<open>The decision on one sample\<close>

lemma step_keeps:
  assumes "completion smp \<noteq> NonStr" and "rejection_reason smp = None"
  shows "keeps st smp"
  using assms by (simp add: keeps_def step_eq Let_def lookup_modify)

lemma step_rejects:
  assumes "completion smp \<noteq> NonStr" and "rejection_reason smp = Some tag"
  shows "rejects_as tag st smp"
  using assms by (simp add: rejects_as_def step_eq Let_def reject_def lookup_modify)

lemma keeps_not_rejects: "keeps st smp \<Longrightarrow> \<not> rejects_as tag st smp"
  by (auto simp: keeps_def rejects_as_def Let_def split: sum.splits)

lemma rejects_as_unique:
  assumes "rejects_as tag st smp" and "rejects_as tag' st smp"
  shows "tag = tag'"
proof (rule ccontr)
  assume ne: "tag \<noteq> tag'"
  let ?d = "filtered_reasons (lookup (problem_samples st) (task_id smp))"
  from assms have "AList.update tag (reason_count ?d tag + 1) ?d =
                   AList.update tag' (reason_count ?d tag' + 1) ?d"
    by (auto simp: rejects_as_def Let_def split: sum.splits)
  then have "reason_count (AList.update tag (reason_count ?d tag + 1) ?d) tag =
             reason_count (AList.update tag' (reason_count ?d tag' + 1) ?d) tag"
    by simp
  with ne show False by (simp add: reason_count_update)
qed

lemma keeps_iff:
  assumes "completion smp \<noteq> NonStr"
  shows "keeps st smp \<longleftrightarrow> rejection_reason smp = None"
proof
  assume k: "keeps st smp"
  show "rejection_reason smp = None"
  proof (cases "rejection_reason smp")
    case None
    then show ?thesis .
  next
    case (Some tag)
    from step_rejects [OF assms Some] keeps_not_rejects [OF k] show ?thesis by blast
  qed
next
  assume "rejection_reason smp = None"
  then show "keeps st smp" by (rule step_keeps [OF assms])
qed

lemma rejects_as_iff:
  assumes "completion smp \<noteq> NonStr"
  shows "rejects_as tag st smp \<longleftrightarrow> rejection_reason smp = Some tag"
proof
  assume r: "rejects_as tag st smp"
  show "rejection_reason smp = Some tag"
  proof (cases "rejection_reason smp")
    case None
    from step_keeps [OF assms None] keeps_not_rejects r show ?thesis by blast
  next
    case (Some tag')
    have "rejects_as tag' st smp" by (rule step_rejects [OF assms Some])
    with r have "tag = tag'" by (rule rejects_as_unique)
    with Some show ?thesis by simp
  qed
next
  assume "rejection_reason smp = Some tag"
  then show "rejects_as tag st smp" by (rule step_rejects [OF assms])
qed

theorem rejection_rules_in_order:
  assumes "completion smp \<noteq> NonStr" and "c = trimmed smp"
  shows "(if length c = 0 then rejects_as ''empty'' st smp
          else if length c < 10 then rejects_as ''short'' st smp
          else if brace_delta c > 3 then rejects_as ''braces'' st smp
          else keeps st smp) \<and>
         (keeps st smp \<longleftrightarrow> first_match spec_rules c = None) \<and>
         (\<forall>tag. rejects_as tag st smp \<longleftrightarrow> first_match spec_rules c = Some tag) \<and>
         (length c = 10 \<and> brace_delta c \<le> 3 \<longrightarrow> keeps st smp) \<and>
         (0 < length c \<and> length c < 10 \<longrightarrow> rejects_as ''short'' st smp) \<and>
         (10 \<le> length c \<and> brace_delta c = 3 \<longrightarrow> keeps st smp) \<and>
         (10 \<le> length c \<and> 4 \<le> brace_delta c \<longrightarrow> rejects_as ''braces'' st smp)"
proof -
  have k: "keeps st smp \<longleftrightarrow> rejection_reason smp = None"
    by (rule keeps_iff [OF assms(1)])
  have r: "\<And>tag. rejects_as tag st smp \<longleftrightarrow> rejection_reason smp = Some tag"
    by (rule rejects_as_iff [OF assms(1)])
  have c: "rejection_reason smp =
             (if length c = 0 then Some ''empty''
              else if length c < 10 then Some ''short''
              else if brace_delta c > 3 then Some ''braces'' else None)"
    by (simp add: rejection_reason_cases assms(2))
  have f: "first_match spec_rules c = rejection_reason smp"
    by (simp add: rejection_reason_def assms(2))
  show ?thesis
    unfolding k r f c by auto
qed

theorem rejection_rules_in_order_witness:
  "completion boundary_kept \<noteq> NonStr \<and>
   length (trimmed boundary_kept) = 10 \<and> brace_delta (trimmed boundary_kept) = 3 \<and>
   keeps \<lparr>filtered_count = 0, total_count = 0, problem_samples = []\<rparr> boundary_kept \<and>
   length (trimmed boundary_short) = 9 \<and>
   rejects_as ''short'' \<lparr>filtered_count = 0, total_count = 0, problem_samples = []\<rparr> boundary_short \<and>
   length (trimmed boundary_braces) = 10 \<and> brace_delta (trimmed boundary_braces) = 4 \<and>
   rejects_as ''braces'' \<lparr>filtered_count = 0, total_count = 0, problem_samples = []\<rparr> boundary_braces \<and>
   length (trimmed missing_completion) = 0 \<and>
   rejects_as ''empty'' \<lparr>filtered_count = 0, total_count = 0, problem_samples = []\<rparr> missing_completion"
proof -
  let ?st = "\<lparr>filtered_count = 0, total_count = 0, problem_samples = []\<rparr>"
  have k1: "completion boundary_kept \<noteq> NonStr" by (simp add: boundary_kept_def)
  have k2: "length (trimmed boundary_kept) = 10" by code_simp
  have k3: "brace_delta (trimmed boundary_kept) = 3" by code_simp
  have s1: "completion boundary_short \<noteq> NonStr" by (simp add: boundary_short_def)
  have s2: "length (trimmed boundary_short) = 9" by code_simp
  have b1: "completion boundary_braces \<noteq> NonStr" by (simp add: boundary_braces_def)
  have b2: "length (trimmed boundary_braces) = 10" by code_simp
  have b3: "brace_delta (trimmed boundary_braces) = 4" by code_simp
  have m1: "completion missing_completion \<noteq> NonStr" by (simp add: missing_completion_def)
  have m2: "length (trimmed missing_completion) = 0" by code_simp
  have k: "keeps ?st boundary_kept"
    using rejection_rules_in_order [OF k1 refl, of ?st, THEN conjunct1] k2 k3 by simp
  have s: "rejects_as ''short'' ?st boundary_short"
    using rejection_rules_in_order [OF s1 refl, of ?st, THEN conjunct1] s2 by simp
  have b: "rejects_as ''braces'' ?st boundary_braces"
    using rejection_rules_in_order [OF b1 refl, of ?st, THEN conjunct1] b2 b3 by simp
  have m: "rejects_as ''empty'' ?st missing_completion"
    using rejection_rules_in_order [OF m1 refl, of ?st, THEN conjunct1] m2 by simp
  from k1 k2 k3 k s2 s b2 b3 b m2 m show ?thesis by (intro conjI)
qed

subsection \<open>Samples without a completion\<close>

lemma first_pass_final:
  assumes "filter_bad_samples raw = Inr r"
  shows "kept (lookup (problem_samples (final_state r)) t) = filter passes (of_task t raw)"
    and "all (lookup (problem_samples (final_state r)) t) = of_task t raw"
    and "reason_count (filtered_reasons (lookup (problem_samples (final_state r)) t)) tag =
           length (filter (\<lambda>s. rejection_reason s = Some tag) (of_task t raw))"
    and "filtered_count (final_state r) = length (filter (\<lambda>s. \<not> passes s) raw)"
    and "total_count (final_state r) = length raw"
  using first_pass_kept [OF filter_bad_samples_state [OF assms], of t]
    first_pass_all [OF filter_bad_samples_state [OF assms], of t]
    first_pass_reasons [OF filter_bad_samples_state [OF assms], of t tag]
    first_pass_counts [OF filter_bad_samples_state [OF assms]]
  by (simp_all add: lookup_empty default_entry_def reason_count_def)

text \<open>
  Claim C9. A record with no \<open>completion\<close> key, or whose completion trims to the empty
  string, does not make the filter raise: the iteration on it succeeds from every state
  and rejects it with the reason \<open>empty\<close>. In a run over an input the filter accepts,
  the record is not among its task's kept samples, it is among the task's raw samples,
  the task's \<open>empty\<close> count is at least one, and when it is the task's first raw sample
  and no sample of the task passes, it is the one sample written for the task.
\<close>

theorem missing_completion_rejected_empty:
  assumes "completion smp = Missing \<or> (\<exists>s. completion smp = Str s \<and> strip s = [])"
  shows "rejects_as ''empty'' st smp \<and>
         (well_formed raw \<and> smp \<in> set raw \<longrightarrow>
            (\<exists>r. filter_bad_samples raw = Inr r \<and>
                 smp \<notin> set (kept (lookup (problem_samples (final_state r)) (task_id smp))) \<and>
                 smp \<in> set (all (lookup (problem_samples (final_state r)) (task_id smp))) \<and>
                 1 \<le> reason_count
                       (filtered_reasons (lookup (problem_samples (final_state r)) (task_id smp)))
                       ''empty'' \<and>
                 (filter passes (of_task (task_id smp) raw) = [] \<and>
                  hd (of_task (task_id smp) raw) = smp \<longrightarrow>
                    of_task (task_id smp) (written r) = [smp])))"
proof (intro conjI impI)
  from assms have ok: "completion smp \<noteq> NonStr" by auto
  from assms have tr: "trimmed smp = []" by (auto simp: trimmed_def strip_def)
  then have why: "rejection_reason smp = Some ''empty''"
    by (simp add: rejection_reason_cases)
  show "rejects_as ''empty'' st smp" by (rule step_rejects [OF ok why])
  assume a: "well_formed raw \<and> smp \<in> set raw"
  then obtain r where r: "filter_bad_samples raw = Inr r"
    using filter_bad_samples_total by blast
  let ?t = "task_id smp"
  from a have mem: "smp \<in> set (of_task ?t raw)" by (simp add: of_task_def)
  have np: "\<not> passes smp" using why by (simp add: passes_def)
  have 1: "smp \<notin> set (kept (lookup (problem_samples (final_state r)) ?t))"
    using np by (simp add: first_pass_final(1) [OF r])
  have 2: "smp \<in> set (all (lookup (problem_samples (final_state r)) ?t))"
    using mem by (simp add: first_pass_final(2) [OF r])
  have "smp \<in> set (filter (\<lambda>s. rejection_reason s = Some ''empty'') (of_task ?t raw))"
    using mem why by simp
  then have "1 \<le> length (filter (\<lambda>s. rejection_reason s = Some ''empty'') (of_task ?t raw))"
    by (cases "filter (\<lambda>s. rejection_reason s = Some ''empty'') (of_task ?t raw)") simp_all
  then have 3: "1 \<le> reason_count
                    (filtered_reasons (lookup (problem_samples (final_state r)) ?t)) ''empty''"
    by (simp add: first_pass_final(3) [OF r])
  have 4: "filter passes (of_task ?t raw) = [] \<and> hd (of_task ?t raw) = smp \<longrightarrow>
             of_task ?t (written r) = [smp]"
  proof
    assume h: "filter passes (of_task ?t raw) = [] \<and> hd (of_task ?t raw) = smp"
    from mem have "of_task ?t raw \<noteq> []" by auto
    then have "take 1 (of_task ?t raw) = [hd (of_task ?t raw)]"
      by (cases "of_task ?t raw") simp_all
    with h show "of_task ?t (written r) = [smp]"
      by (simp add: of_task_written [OF r] selected_def)
  qed
  from r 1 2 3 4 show "\<exists>r. filter_bad_samples raw = Inr r \<and>
                 smp \<notin> set (kept (lookup (problem_samples (final_state r)) (task_id smp))) \<and>
                 smp \<in> set (all (lookup (problem_samples (final_state r)) (task_id smp))) \<and>
                 1 \<le> reason_count
                       (filtered_reasons (lookup (problem_samples (final_state r)) (task_id smp)))
                       ''empty'' \<and>
                 (filter passes (of_task (task_id smp) raw) = [] \<and>
                  hd (of_task (task_id smp) raw) = smp \<longrightarrow>
                    of_task (task_id smp) (written r) = [smp])"
    by blast
qed

end
